theory Spec2Isabelle
  imports Main "HOL-Library.Word"
begin

section \<open>The req command of nak: data model\<close>

text \<open>
  The model follows \<^verbatim>\<open>src/req.go\<close>. The filter is the relay library's
  \<^verbatim>\<open>nostr.Filter\<close> struct, with the fields the action reads and writes. A nil
  slice and an empty slice are both the empty list; the tag map distinguishes the nil
  map (\<open>None\<close>) from an allocated one, since the action tests \<^verbatim>\<open>filter.Tags == nil\<close>.
  Pointers to timestamps are options. Strings are byte lists, as Go's \<^verbatim>\<open>len\<close>
  counts bytes.
\<close>

type_synonym timestamp = int

type_synonym TagMap = "string \<rightharpoonup> string list"

record Filter =
  IDs :: "string list"
  Kinds :: "int list"
  Authors :: "string list"
  Tags :: "TagMap option"
  Since :: "timestamp option"
  Until :: "timestamp option"
  Limit :: int
  Search :: string
  LimitZero :: bool

text \<open>\<^verbatim>\<open>nostr.Filter{}\<close>: every field at its zero value.\<close>

definition Filter_zero :: Filter where
  "Filter_zero = \<lparr> IDs = [], Kinds = [], Authors = [], Tags = None, Since = None,
     Until = None, Limit = 0, Search = [], LimitZero = False \<rparr>"

record Event =
  ID :: string
  PubKey :: string
  CreatedAt :: timestamp
  Sig :: string

text \<open>
  The flags of the command as the action reads them. A slice flag is the list of its
  values in the order given. \<^verbatim>\<open>since\<close> and \<^verbatim>\<open>until\<close> are \<open>None\<close> when
  \<^verbatim>\<open>c.IsSet\<close> is false and otherwise hold the timestamp that
  \<^verbatim>\<open>getNaturalDate\<close> returns. The two unsigned flags are 64-bit; \<open>None\<close> is a
  flag that was not given, which reads as the default 0. The kinds arrive as 64-bit
  signed integers and \<^verbatim>\<open>int(kind64)\<close> keeps their value.
\<close>

record Flags =
  author_flag :: "string list"
  id_flag :: "string list"
  kind_flag :: "int list"
  tag_flag :: "string list"
  e_flag :: "string list"
  p_flag :: "string list"
  d_flag :: "string list"
  since_flag :: "timestamp option"
  until_flag :: "timestamp option"
  limit_flag :: "64 word option"
  search_flag :: string
  stream_flag :: bool
  paginate_flag :: bool
  paginate_interval_flag :: int
  paginate_global_limit_flag :: "64 word option"
  bare_flag :: bool
  auth_flag :: bool
  force_pre_auth_flag :: bool

text \<open>\<^verbatim>\<open>c.Uint(name)\<close> and \<^verbatim>\<open>c.IsSet(name)\<close> on an unsigned flag.\<close>

definition Uint :: "64 word option \<Rightarrow> 64 word" where
  "Uint v = (case v of None \<Rightarrow> 0 | Some n \<Rightarrow> n)"

definition IsSet :: "'a option \<Rightarrow> bool" where
  "IsSet v = (v \<noteq> None)"

datatype error =
    InvalidTag string
  | AuthNotAuthorized
  | FailedToGetPublicKeyFromBunker error
  | External string

section \<open>Building the filter of one line\<close>

text \<open>\<^verbatim>\<open>strings.Split(s, "=")\<close>: the pieces between the separators, one piece for
  a string without separator (the empty string included).\<close>

fun Split :: "string \<Rightarrow> string list" where
  "Split [] = [[]]"
| "Split (ch # s) =
     (if ch = CHR ''='' then [] # Split s
      else (case Split s of [] \<Rightarrow> [[ch]] | piece # pieces \<Rightarrow> (ch # piece) # pieces))"

text \<open>The loop over \<^verbatim>\<open>c.StringSlice("tag")\<close> (lines 217-224): a tag is kept when
  it splits into two pieces with a one-byte key, and the first other tag makes the
  action return.\<close>

fun parse_tag_flags :: "string list list \<Rightarrow> string list \<Rightarrow> error + string list list" where
  "parse_tag_flags tags [] = Inr tags"
| "parse_tag_flags tags (tagFlag # rest) =
     (let spl = Split tagFlag in
      if length spl = 2 \<and> length (spl ! 0) = 1 then parse_tag_flags (tags @ [spl]) rest
      else Inl (InvalidTag tagFlag))"

text \<open>The three shortcut loops (lines 225-233).\<close>

definition shortcut_tags :: "Flags \<Rightarrow> string list list" where
  "shortcut_tags c =
     map (\<lambda>etag. [''e'', etag]) (e_flag c) @
     map (\<lambda>ptag. [''p'', ptag]) (p_flag c) @
     map (\<lambda>dtag. [''d'', dtag]) (d_flag c)"

text \<open>The loop of lines 239-244 on an allocated map.\<close>

fun merge_tags :: "TagMap \<Rightarrow> string list list \<Rightarrow> TagMap" where
  "merge_tags m [] = m"
| "merge_tags m (tag # rest) =
     merge_tags
       (m(tag ! 0 \<mapsto> (case m (tag ! 0) of None \<Rightarrow> [] | Some vs \<Rightarrow> vs) @ [tag ! 1]))
       rest"

text \<open>Lines 235-244. The map is allocated when there is a tag to insert and the map is
  nil; with no tag to insert the loop body never runs and a nil map stays nil.\<close>

definition apply_tags :: "Filter \<Rightarrow> string list list \<Rightarrow> Filter" where
  "apply_tags flt tags =
     (let flt1 = (if tags \<noteq> [] \<and> Tags flt = None
                     then flt\<lparr>Tags := Some Map.empty\<rparr> else flt)
      in case Tags flt1 of
           None \<Rightarrow> flt1
         | Some m \<Rightarrow> flt1\<lparr>Tags := Some (merge_tags m tags)\<rparr>)"

text \<open>Lines 246-254.\<close>

definition apply_since_until :: "Flags \<Rightarrow> Filter \<Rightarrow> Filter" where
  "apply_since_until c flt =
     (let flt1 = (case since_flag c of None \<Rightarrow> flt
                                         | Some nts \<Rightarrow> flt\<lparr>Since := Some nts\<rparr>)
      in case until_flag c of None \<Rightarrow> flt1
                            | Some nts \<Rightarrow> flt1\<lparr>Until := Some nts\<rparr>)"

text \<open>Lines 256-260. \<^verbatim>\<open>int(limit)\<close> converts the unsigned 64-bit value to a
  signed one of the same width.\<close>

definition apply_limit :: "Flags \<Rightarrow> Filter \<Rightarrow> Filter" where
  "apply_limit c flt =
     (let limit = Uint (limit_flag c) in
      if limit \<noteq> 0 then flt\<lparr>Limit := sint limit\<rparr>
      else if IsSet (limit_flag c) then flt\<lparr>LimitZero := True\<rparr>
      else flt)"

text \<open>Lines 204-215: the list flags append to the base filter, a non-empty search
  replaces the base's.\<close>

definition apply_lists :: "Flags \<Rightarrow> Filter \<Rightarrow> Filter" where
  "apply_lists c flt =
     (let flt1 = (if author_flag c \<noteq> [] then flt\<lparr>Authors := Authors flt @ author_flag c\<rparr>
                     else flt);
          flt2 = (if id_flag c \<noteq> [] then flt1\<lparr>IDs := IDs flt1 @ id_flag c\<rparr>
                     else flt1);
          flt3 = flt2\<lparr>Kinds := Kinds flt2 @ kind_flag c\<rparr>
      in if search_flag c \<noteq> [] then flt3\<lparr>Search := search_flag c\<rparr> else flt3)"

text \<open>Lines 204-260 for one base filter: the filter of the line, or the error the
  action returns with.\<close>

definition build :: "Flags \<Rightarrow> Filter \<Rightarrow> error + Filter" where
  "build c base =
     (let flt = apply_lists c base in
      case parse_tag_flags [] (tag_flag c) of
        Inl err \<Rightarrow> Inl err
      | Inr tags \<Rightarrow>
          Inr (apply_limit c (apply_since_until c (apply_tags flt (tags @ shortcut_tags c)))))"

section \<open>The action\<close>

text \<open>
  The three functions the action chooses between (lines 263-268):
  \<^verbatim>\<open>pool.SubManyEose\<close> closes its channel once every relay has signalled the end of
  stored events, \<^verbatim>\<open>pool.SubMany\<close> keeps the subscription open, and
  \<^verbatim>\<open>paginateWithPoolAndParams\<close> carries the interval and the global limit.
\<close>

datatype strategy =
    SubManyEose
  | SubMany
  | paginateWithPoolAndParams int "64 word"

text \<open>What the action does to the outside, in order.\<close>

datatype effect =
    Connect "string list" bool
  | Log_failed_to_connect
  | Subscribe strategy "string list" Filter
  | Stdout_event Event
  | Stdout_filter Filter
  | Stdout_req string "Filter list"
  | Close string

text \<open>
  What the action takes from outside \<^verbatim>\<open>req.go\<close>: the helper that connects (it
  returns the relays that connected, here by URL), the JSON decoder of the relay library
  (\<open>None\<close> is its error), the lines of standard input, and the events a subscription
  delivers before its channel is closed. The model covers the runs in which every such
  channel is closed: the loop of line 270 ends only then.
\<close>

record World =
  connectToAllRelays :: "string list \<Rightarrow> bool \<Rightarrow> string list"
  Unmarshal :: "string \<Rightarrow> Filter option"
  getStdinLinesOrBlank :: "string list"
  events_of :: "strategy \<Rightarrow> string list \<Rightarrow> Filter \<Rightarrow> Event list"

record Context =
  LINE_PROCESSING_ERROR :: bool

datatype outcome =
    Return_nil
  | Return_error error
  | os_Exit int
  | Exit_line_processing_error

text \<open>Modelled from the spec: \<^verbatim>\<open>lineProcessingError\<close> is defined outside
  \<^verbatim>\<open>req.go\<close>. Section 7 of the specification says that a malformed piped filter
  aborts the current line and that the invocation still reports failure at exit, so the
  helper records the failure in the context it returns.\<close>

definition lineProcessingError :: "Context \<Rightarrow> Context" where
  "lineProcessingError ctx = ctx\<lparr>LINE_PROCESSING_ERROR := True\<rparr>"

text \<open>Modelled from the spec: \<^verbatim>\<open>exitIfLineProcessingError\<close> is defined outside
  \<^verbatim>\<open>req.go\<close>. It ends the process reporting failure when a line failed, and
  otherwise lets the action return.\<close>

definition exitIfLineProcessingError :: "Context \<Rightarrow> outcome option" where
  "exitIfLineProcessingError ctx =
     (if LINE_PROCESSING_ERROR ctx then Some Exit_line_processing_error else None)"


text \<open>Lines 196-202: the base filter of a line; \<open>None\<close> when the line is not a
  filter.\<close>

definition read_base :: "World \<Rightarrow> string \<Rightarrow> Filter option" where
  "read_base w stdinFilter =
     (if stdinFilter \<noteq> [] then Unmarshal w stdinFilter else Some Filter_zero)"

text \<open>Lines 263-268.\<close>

definition select_fn :: "Flags \<Rightarrow> strategy" where
  "select_fn c =
     (if paginate_flag c
      then paginateWithPoolAndParams (paginate_interval_flag c)
             (Uint (paginate_global_limit_flag c))
      else if stream_flag c then SubMany
      else SubManyEose)"

text \<open>Lines 262-284: a built filter goes to the relays, or is printed.\<close>

definition emit :: "World \<Rightarrow> Flags \<Rightarrow> string list \<Rightarrow> Filter \<Rightarrow> effect list" where
  "emit w c relayUrls flt =
     (if relayUrls \<noteq> [] then
        (let fn = select_fn c in
         Subscribe fn relayUrls flt # map Stdout_event (events_of w fn relayUrls flt))
      else [if bare_flag c then Stdout_filter flt else Stdout_req ''nak'' [flt]])"

text \<open>The loop of lines 195-285. It ends with the error of a \<^verbatim>\<open>return\<close> inside
  the body, or with the context at the end of the input.\<close>

fun process_lines ::
  "World \<Rightarrow> Flags \<Rightarrow> string list \<Rightarrow> Context \<Rightarrow> string list
     \<Rightarrow> (error option \<times> Context) \<times> effect list" where
  "process_lines w c relayUrls ctx [] = ((None, ctx), [])"
| "process_lines w c relayUrls ctx (stdinFilter # rest) =
     (case read_base w stdinFilter of
        None \<Rightarrow> process_lines w c relayUrls (lineProcessingError ctx) rest
      | Some base \<Rightarrow>
          (case build c base of
             Inl err \<Rightarrow> ((Some err, ctx), [])
           | Inr flt \<Rightarrow>
               (case process_lines w c relayUrls ctx rest of
                  (res, effs) \<Rightarrow> (res, emit w c relayUrls flt @ effs))))"

text \<open>The action (lines 147-289) on the positional arguments. The deferred closing of
  the relays runs when the action returns, not when the process exits.\<close>

definition Action :: "World \<Rightarrow> Flags \<Rightarrow> string list \<Rightarrow> outcome \<times> effect list" where
  "Action w c args =
     (let relays = (if args \<noteq> [] then connectToAllRelays w args (force_pre_auth_flag c) else []);
          connect = (if args \<noteq> [] then [Connect args (force_pre_auth_flag c)] else [])
      in if args \<noteq> [] \<and> relays = [] then (os_Exit 3, connect @ [Log_failed_to_connect])
         else
           (case process_lines w c relays \<lparr>LINE_PROCESSING_ERROR = False\<rparr>
                   (getStdinLinesOrBlank w) of
              ((Some err, ctx), effs) \<Rightarrow> (Return_error err, connect @ effs @ map Close relays)
            | ((None, ctx), effs) \<Rightarrow>
                (case exitIfLineProcessingError ctx of
                   Some out \<Rightarrow> (out, connect @ effs)
                 | None \<Rightarrow> (Return_nil, connect @ effs @ map Close relays))))"

text \<open>What reaches standard output or a relay.\<close>

fun is_delivery :: "effect \<Rightarrow> bool" where
  "is_delivery (Subscribe fn urls flt) = True"
| "is_delivery (Stdout_event evt) = True"
| "is_delivery (Stdout_filter flt) = True"
| "is_delivery (Stdout_req sid flts) = True"
| "is_delivery eff = False"

fun is_network :: "effect \<Rightarrow> bool" where
  "is_network (Connect urls pre) = True"
| "is_network (Subscribe fn urls flt) = True"
| "is_network (Close url) = True"
| "is_network eff = False"

section \<open>The authentication handler\<close>

text \<open>
  The closure of lines 153-178. The secret or the bunker comes from a helper outside
  \<^verbatim>\<open>req.go\<close>, and signing belongs to the relay library; both are taken from
  outside. A signing function returns its error and the event as it leaves it.
\<close>

record Bunker =
  GetPublicKey :: "error + string"
  SignEvent :: "Event \<Rightarrow> error option \<times> Event"

record Signers =
  gatherSecretKeyOrBunkerFromArguments :: "error + (string \<times> Bunker option)"
  nostr_GetPublicKey :: "string \<Rightarrow> string"
  Sign :: "string \<Rightarrow> Event \<Rightarrow> error option \<times> Event"

datatype auth_effect =
    Gather
  | Bunker_GetPublicKey
  | Log_performing_auth string
  | Bunker_SignEvent
  | Local_Sign

definition authHandler ::
  "Signers \<Rightarrow> Flags \<Rightarrow> Event \<Rightarrow> (error option \<times> Event) \<times> auth_effect list" where
  "authHandler sg c evt =
     (if \<not> auth_flag c \<and> \<not> force_pre_auth_flag c then ((Some AuthNotAuthorized, evt), [])
      else
        (case gatherSecretKeyOrBunkerFromArguments sg of
           Inl err \<Rightarrow> ((Some err, evt), [Gather])
         | Inr (sec, None) \<Rightarrow>
             (Sign sg sec evt,
              [Gather, Log_performing_auth (nostr_GetPublicKey sg sec), Local_Sign])
         | Inr (sec, Some bunker) \<Rightarrow>
             (case GetPublicKey bunker of
                Inl err \<Rightarrow>
                  ((Some (FailedToGetPublicKeyFromBunker err), evt),
                   [Gather, Bunker_GetPublicKey])
              | Inr pk \<Rightarrow>
                  (SignEvent bunker evt,
                   [Gather, Bunker_GetPublicKey, Log_performing_auth pk, Bunker_SignEvent]))))"

text \<open>Modelled from the spec: what the connection does with the handler's answer is
  decided in the relay library, outside \<^verbatim>\<open>req.go\<close>. Section 4.3 of the
  specification gives the states; a handler that returns an error ends in \<open>Refused\<close>
  and the triggering request is not sent again, a handler that signed ends in
  \<open>Authed\<close> and the request is sent again once. The number is the count of resends.\<close>

datatype auth_state = NoAuth | ChallengeReceived | Signing | Authed | Refused

definition after_challenge :: "error option \<Rightarrow> auth_state \<times> nat" where
  "after_challenge answer = (case answer of Some err \<Rightarrow> (Refused, 0) | None \<Rightarrow> (Authed, 1))"

section \<open>Pagination\<close>

text \<open>Modelled from the spec: \<^verbatim>\<open>paginateWithPoolAndParams\<close> is defined outside
  \<^verbatim>\<open>req.go\<close>, which only calls it (line 265). The definitions of this section
  follow section 4.5 of the specification. A round is answered by the events the
  relays return for it; the answers of the successive rounds are given as a list, and
  pagination that has used all of them without meeting a stop condition is still
  running (\<open>False\<close>). The wait between rounds is not modelled.\<close>

record PaginationState =
  currentUntil :: "timestamp option"
  totalReceived :: nat

record Round =
  round_until :: "timestamp option"
  round_events :: "Event list"
  round_next :: "timestamp option"

text \<open>Modelled from the spec: the minimum creation timestamp of a round, \<open>None\<close>
  for a round without events.\<close>

fun min_timestamp :: "Event list \<Rightarrow> timestamp option" where
  "min_timestamp [] = None"
| "min_timestamp (evt # evts) =
     (case min_timestamp evts of None \<Rightarrow> Some (CreatedAt evt)
                               | Some m \<Rightarrow> Some (min (CreatedAt evt) m))"

text \<open>Modelled from the spec: \<^verbatim>\<open>until = min(minTimestamp - 1, previousUntil - 1)\<close>,
  where a round without upper bound constrains nothing.\<close>

definition next_until :: "timestamp option \<Rightarrow> timestamp \<Rightarrow> timestamp" where
  "next_until previousUntil minTimestamp =
     (case previousUntil of None \<Rightarrow> minTimestamp - 1
                          | Some u \<Rightarrow> min (minTimestamp - 1) (u - 1))"

text \<open>Modelled from the spec: the stop conditions (a), (b) and (c) after a round with
  events. A limit of 0 is a limit that is not set.\<close>

definition stop_after_round :: "Filter \<Rightarrow> 64 word \<Rightarrow> nat \<Rightarrow> timestamp \<Rightarrow> bool" where
  "stop_after_round flt globalLimit received nextUntil =
     ((Limit flt \<noteq> 0 \<and> Limit flt \<le> int received) \<or>
      (globalLimit \<noteq> 0 \<and> unat globalLimit \<le> received) \<or>
      (case Since flt of None \<Rightarrow> False | Some since \<Rightarrow> nextUntil < since))"

text \<open>Modelled from the spec: the rounds issued, and whether pagination has stopped.\<close>

fun paginate_rounds ::
  "Filter \<Rightarrow> 64 word \<Rightarrow> PaginationState \<Rightarrow> Event list list \<Rightarrow> Round list \<times> bool" where
  "paginate_rounds flt globalLimit st [] = ([], False)"
| "paginate_rounds flt globalLimit st (evts # answers) =
     (case min_timestamp evts of
        None \<Rightarrow>
          ([\<lparr>round_until = currentUntil st, round_events = evts, round_next = None\<rparr>], True)
      | Some minTimestamp \<Rightarrow>
          (let nextUntil = next_until (currentUntil st) minTimestamp;
               received = totalReceived st + length evts;
               round = \<lparr>round_until = currentUntil st, round_events = evts,
                         round_next = Some nextUntil\<rparr>
           in if stop_after_round flt globalLimit received nextUntil then ([round], True)
              else
                (case paginate_rounds flt globalLimit
                        \<lparr>currentUntil = Some nextUntil, totalReceived = received\<rparr> answers of
                   (rounds, stopped) \<Rightarrow> (round # rounds, stopped))))"

text \<open>Modelled from the spec: round 0 uses the filter's own \<^verbatim>\<open>until\<close>.\<close>

definition paginate :: "Filter \<Rightarrow> 64 word \<Rightarrow> Event list list \<Rightarrow> Round list \<times> bool" where
  "paginate flt globalLimit answers =
     paginate_rounds flt globalLimit \<lparr>currentUntil = Until flt, totalReceived = 0\<rparr> answers"

section \<open>Reading the result, and example inputs\<close>


text \<open>The command without any flag.\<close>

definition no_flags :: Flags where
  "no_flags = \<lparr> author_flag = [], id_flag = [], kind_flag = [], tag_flag = [], e_flag = [],
     p_flag = [], d_flag = [], since_flag = None, until_flag = None, limit_flag = None,
     search_flag = [], stream_flag = False, paginate_flag = False, paginate_interval_flag = 0,
     paginate_global_limit_flag = None, bare_flag = False, auth_flag = False,
     force_pre_auth_flag = False \<rparr>"

text \<open>An outside in which every relay connects and no relay has an event, and one in
  which no relay connects. The decoder knows the empty object only, and allocates the
  tag map of the filter it returns, as the relay library's decoder does.\<close>

definition world_up :: "string list \<Rightarrow> World" where
  "world_up stdinLines =
     \<lparr> connectToAllRelays = (\<lambda>urls pre. urls),
       Unmarshal = (\<lambda>s. if s = ''{}'' then Some (Filter_zero\<lparr>Tags := Some Map.empty\<rparr>)
                        else None),
       getStdinLinesOrBlank = stdinLines,
       events_of = (\<lambda>fn urls flt. []) \<rparr>"

definition world_down :: "string list \<Rightarrow> World" where
  "world_down stdinLines = (world_up stdinLines)\<lparr>connectToAllRelays := (\<lambda>urls pre. [])\<rparr>"

definition event_at :: "timestamp \<Rightarrow> Event" where
  "event_at t = \<lparr> ID = [], PubKey = [], CreatedAt = t, Sig = [] \<rparr>"

definition signers_none :: Signers where
  "signers_none =
     \<lparr> gatherSecretKeyOrBunkerFromArguments = Inr (''01'', None),
       nostr_GetPublicKey = (\<lambda>sec. sec),
       Sign = (\<lambda>sec evt. (None, evt\<lparr>PubKey := sec, Sig := ''signed''\<rparr>)) \<rparr>"

text \<open>The relay URLs the loop runs with (lines 150-186).\<close>

definition relays_of :: "World \<Rightarrow> Flags \<Rightarrow> string list \<Rightarrow> string list" where
  "relays_of w c args = (if args \<noteq> [] then connectToAllRelays w args (force_pre_auth_flag c) else [])"

section \<open>Properties of the filter of one line\<close>

lemma build_Inr:
  "build c base = Inr flt \<longleftrightarrow>
     (\<exists>tags. parse_tag_flags [] (tag_flag c) = Inr tags \<and>
        flt = apply_limit c (apply_since_until c
                (apply_tags (apply_lists c base) (tags @ shortcut_tags c))))"
  by (auto simp: build_def Let_def split: sum.splits)

lemma apply_limit_frame:
  "Since (apply_limit c flt) = Since flt" "Until (apply_limit c flt) = Until flt"
  "Tags (apply_limit c flt) = Tags flt"
  by (simp_all add: apply_limit_def Let_def)

lemma apply_since_until_fields:
  "Since (apply_since_until c flt) =
     (case since_flag c of None \<Rightarrow> Since flt | Some nts \<Rightarrow> Some nts)"
  "Until (apply_since_until c flt) =
     (case until_flag c of None \<Rightarrow> Until flt | Some nts \<Rightarrow> Some nts)"
  "Tags (apply_since_until c flt) = Tags flt"
  "Limit (apply_since_until c flt) = Limit flt"
  "LimitZero (apply_since_until c flt) = LimitZero flt"
  by (simp_all add: apply_since_until_def Let_def split: option.splits)

lemma apply_tags_frame:
  "Since (apply_tags flt tags) = Since flt" "Until (apply_tags flt tags) = Until flt"
  "Limit (apply_tags flt tags) = Limit flt" "LimitZero (apply_tags flt tags) = LimitZero flt"
  by (simp_all add: apply_tags_def Let_def split: option.splits)

lemma apply_lists_frame:
  "Since (apply_lists c flt) = Since flt" "Until (apply_lists c flt) = Until flt"
  "Limit (apply_lists c flt) = Limit flt" "LimitZero (apply_lists c flt) = LimitZero flt"
  "Tags (apply_lists c flt) = Tags flt"
  by (simp_all add: apply_lists_def Let_def)

lemmas build_frame =
  apply_limit_frame apply_since_until_fields apply_tags_frame apply_lists_frame

lemmas build_unfold =
  build_def no_flags_def Filter_zero_def apply_lists_def apply_tags_def
  apply_since_until_def apply_limit_def shortcut_tags_def Uint_def IsSet_def

text \<open>
  C7. When the since flag is set, the filter of the line carries the flag's timestamp
  whatever the base filter had, and likewise for until; a flag that is not set leaves
  the base filter's value as it was.
\<close>

theorem since_until_replace:
  "build c base = Inr flt \<Longrightarrow>
     Since flt = (case since_flag c of None \<Rightarrow> Since base | Some nts \<Rightarrow> Some nts) \<and>
     Until flt = (case until_flag c of None \<Rightarrow> Until base | Some nts \<Rightarrow> Some nts)"
  by (auto simp: build_Inr build_frame split: option.splits)

theorem since_until_replace_witness:
  "build (no_flags\<lparr>since_flag := Some 100\<rparr>) (Filter_zero\<lparr>Since := Some 5, Until := Some 9\<rparr>)
     = Inr (Filter_zero\<lparr>Since := Some 100, Until := Some 9\<rparr>) \<and>
   Since (Filter_zero\<lparr>Since := Some 100, Until := Some 9\<rparr>) = Some 100 \<and>
   Until (Filter_zero\<lparr>Since := Some 100, Until := Some 9\<rparr>) = Some 9"
proof -
  have b: "build (no_flags\<lparr>since_flag := Some 100\<rparr>)
             (Filter_zero\<lparr>Since := Some 5, Until := Some 9\<rparr>)
           = Inr (Filter_zero\<lparr>Since := Some 100, Until := Some 9\<rparr>)"
    by (simp add: build_unfold)
  show ?thesis
    using b since_until_replace [OF b] by (simp add: no_flags_def Filter_zero_def)
qed


lemma uint_small: "unat (n :: 64 word) < 2 ^ 63 \<Longrightarrow> uint n < 2 ^ 63"
  by transfer simp

lemma sint_small:
  assumes "unat (n :: 64 word) < 2 ^ 63"
  shows "sint n = int (unat n)"
proof -
  have lt: "uint n < 2 ^ 63" using assms by (rule uint_small)
  have "(0::int) \<le> uint n" by simp
  moreover have "- (2 ^ 63) \<le> (0::int)" by simp
  ultimately have ge: "- (2 ^ 63) \<le> uint n" by (rule order_trans [rotated])
  have "signed_take_bit 63 (uint n) = uint n"
    using ge lt by (rule signed_take_bit_int_eq_self)
  moreover have "sint n = signed_take_bit 63 (uint n)"
    by (simp add: sint_uint)
  ultimately show ?thesis by (simp only: uint_nat)
qed

lemma apply_limit_fields:
  "Limit (apply_limit c flt) =
     (if Uint (limit_flag c) \<noteq> 0 then sint (Uint (limit_flag c)) else Limit flt)"
  "LimitZero (apply_limit c flt) =
     (if Uint (limit_flag c) = 0 \<and> IsSet (limit_flag c) then True else LimitZero flt)"
  by (simp_all add: apply_limit_def Let_def)

text \<open>
  C2, as amended. A limit of 0 given on the command line sets \<open>LimitZero\<close>, and a base
  filter without a limit stays without one. A positive limit below \<open>2 ^ 63\<close> becomes the
  filter's limit verbatim and leaves \<open>LimitZero\<close> as the base filter had it, which is
  false unless the base filter carries an explicit zero limit. Without a limit flag both
  fields stay as in the base filter, whatever its other fields are.
\<close>

theorem limit_override:
  "build c base = Inr flt \<Longrightarrow>
     (limit_flag c = Some 0 \<longrightarrow> LimitZero flt \<and> (Limit base = 0 \<longrightarrow> Limit flt = 0)) \<and>
     (\<forall>n. limit_flag c = Some n \<and> n \<noteq> 0 \<and> unat n < 2 ^ 63 \<longrightarrow>
          Limit flt = int (unat n) \<and> LimitZero flt = LimitZero base) \<and>
     (limit_flag c = None \<longrightarrow> Limit flt = Limit base \<and> LimitZero flt = LimitZero base)"
  by (auto simp: build_Inr apply_limit_fields build_frame Uint_def IsSet_def sint_small)

text \<open>Four inputs on which the values are not those of the claim. Without a limit flag a
  base filter with the limit 7 keeps it. Under the positive limit 5 a base filter that
  carries an explicit zero limit still has \<open>LimitZero\<close>. The limit \<open>2 ^ 63\<close> arrives as
  a negative number. Under the limit 0 a base filter with the limit 7 still has it.\<close>

theorem limit_override_counterexample:
  "build no_flags (Filter_zero\<lparr>Limit := 7\<rparr>) = Inr (Filter_zero\<lparr>Limit := 7\<rparr>) \<and>
   build (no_flags\<lparr>limit_flag := Some 5\<rparr>) (Filter_zero\<lparr>LimitZero := True\<rparr>)
     = Inr (Filter_zero\<lparr>Limit := 5, LimitZero := True\<rparr>) \<and>
   build (no_flags\<lparr>limit_flag := Some 9223372036854775808\<rparr>) Filter_zero
     = Inr (Filter_zero\<lparr>Limit := - 9223372036854775808\<rparr>) \<and>
   build (no_flags\<lparr>limit_flag := Some 0\<rparr>) (Filter_zero\<lparr>Limit := 7\<rparr>)
     = Inr (Filter_zero\<lparr>Limit := 7, LimitZero := True\<rparr>)"
  by (simp add: build_unfold)

theorem limit_override_witness:
  "build (no_flags\<lparr>limit_flag := Some 5\<rparr>) (Filter_zero\<lparr>LimitZero := True\<rparr>)
     = Inr (Filter_zero\<lparr>Limit := 5, LimitZero := True\<rparr>) \<and>
   limit_flag (no_flags\<lparr>limit_flag := Some 5\<rparr>) = Some 5 \<and> (5 :: 64 word) \<noteq> 0 \<and>
   unat (5 :: 64 word) < 2 ^ 63 \<and>
   Limit (Filter_zero\<lparr>Limit := 5, LimitZero := True\<rparr>) = int (unat (5 :: 64 word)) \<and>
   LimitZero (Filter_zero\<lparr>Limit := 5, LimitZero := True\<rparr>)
     = LimitZero (Filter_zero\<lparr>LimitZero := True\<rparr>) \<and>
   build (no_flags\<lparr>limit_flag := Some 0\<rparr>) Filter_zero = Inr (Filter_zero\<lparr>LimitZero := True\<rparr>) \<and>
   LimitZero (Filter_zero\<lparr>LimitZero := True\<rparr>) \<and>
   Limit (Filter_zero\<lparr>LimitZero := True\<rparr>) = 0"
proof -
  have b: "build (no_flags\<lparr>limit_flag := Some 5\<rparr>) (Filter_zero\<lparr>LimitZero := True\<rparr>)
             = Inr (Filter_zero\<lparr>Limit := 5, LimitZero := True\<rparr>)"
    by (simp add: build_unfold)
  have f: "limit_flag (no_flags\<lparr>limit_flag := Some 5\<rparr>) = Some 5 \<and> (5 :: 64 word) \<noteq> 0 \<and>
           unat (5 :: 64 word) < 2 ^ 63"
    by simp
  have z: "build (no_flags\<lparr>limit_flag := Some 0\<rparr>) Filter_zero
             = Inr (Filter_zero\<lparr>LimitZero := True\<rparr>)"
    by (simp add: build_unfold)
  have g: "limit_flag (no_flags\<lparr>limit_flag := Some 0\<rparr>) = Some 0 \<and> Limit Filter_zero = 0"
    by (simp add: Filter_zero_def)
  from limit_override [OF z] g
  have "LimitZero (Filter_zero\<lparr>LimitZero := True\<rparr>) \<and> Limit (Filter_zero\<lparr>LimitZero := True\<rparr>) = 0"
    by blast
  with limit_override [OF b] f b z show ?thesis by blast
qed










section \<open>Properties of the action\<close>

lemma build_Inl:
  "build c base = Inl err \<longleftrightarrow> parse_tag_flags [] (tag_flag c) = Inl err"
  by (auto simp: build_def Let_def split: sum.splits)







lemma delivery_frame:
  "filter is_delivery (map Close urls) = []"
  by (induction urls) simp_all

text \<open>The action in terms of the loop.\<close>

lemma Action_no_relay:
  "args \<noteq> [] \<Longrightarrow> connectToAllRelays w args (force_pre_auth_flag c) = [] \<Longrightarrow>
     Action w c args = (os_Exit 3, [Connect args (force_pre_auth_flag c), Log_failed_to_connect])"
  by (simp add: Action_def)


lemma Action_loop:
  assumes "args = [] \<or> connectToAllRelays w args (force_pre_auth_flag c) \<noteq> []"
  shows "filter is_delivery (snd (Action w c args)) =
           filter is_delivery (snd (process_lines w c (relays_of w c args)
              \<lparr>LINE_PROCESSING_ERROR = False\<rparr> (getStdinLinesOrBlank w)))"
    and "fst (Action w c args) =
           (case process_lines w c (relays_of w c args)
                   \<lparr>LINE_PROCESSING_ERROR = False\<rparr> (getStdinLinesOrBlank w) of
              ((Some err, ctx), effs) \<Rightarrow> Return_error err
            | ((None, ctx), effs) \<Rightarrow>
                (if LINE_PROCESSING_ERROR ctx then Exit_line_processing_error else Return_nil))"
  using assms
  by (auto simp: Action_def relays_of_def Let_def delivery_frame exitIfLineProcessingError_def
      split: prod.splits option.splits)


lemmas action_unfold =
  Action_def world_up_def world_down_def read_base_def emit_def select_fn_def
  exitIfLineProcessingError_def lineProcessingError_def



lemma relays_of_lines [simp]: "relays_of (w\<lparr>getStdinLinesOrBlank := ls\<rparr>) c args = relays_of w c args"
  by (simp add: relays_of_def)

lemma process_lines_lines [simp]:
  "process_lines (w\<lparr>getStdinLinesOrBlank := ls'\<rparr>) c urls ctx ls = process_lines w c urls ctx ls"
proof -
  have r: "read_base (w\<lparr>getStdinLinesOrBlank := ls'\<rparr>) l = read_base w l" for l
    by (simp add: read_base_def)
  have e: "emit (w\<lparr>getStdinLinesOrBlank := ls'\<rparr>) c urls flt = emit w c urls flt" for flt
    by (simp add: emit_def)
  show ?thesis
    by (induction ls arbitrary: ctx)
      (simp_all add: r e case_prod_beta split: option.splits sum.splits)
qed



text \<open>
  C5. When relay addresses are given and none connects, the action exits with code 3
  after the connection attempt and its log line, and nothing is delivered for any line.
  No other path of the action ends with that code.
\<close>

theorem no_relays_connected_is_fatal:
  "(args \<noteq> [] \<and> connectToAllRelays w args (force_pre_auth_flag c) = [] \<longrightarrow>
      Action w c args =
        (os_Exit 3, [Connect args (force_pre_auth_flag c), Log_failed_to_connect]) \<and>
      filter is_delivery (snd (Action w c args)) = []) \<and>
   (fst (Action w c args) = os_Exit 3 \<longrightarrow>
      args \<noteq> [] \<and> connectToAllRelays w args (force_pre_auth_flag c) = [])"
proof (intro conjI impI)
  assume "args \<noteq> [] \<and> connectToAllRelays w args (force_pre_auth_flag c) = []"
  then show a: "Action w c args =
        (os_Exit 3, [Connect args (force_pre_auth_flag c), Log_failed_to_connect])"
    by (simp add: Action_no_relay)
  then show "filter is_delivery (snd (Action w c args)) = []" by simp
next
  assume e: "fst (Action w c args) = os_Exit 3"
  show "args \<noteq> []"
  proof
    assume "args = []"
    then have "args = [] \<or> connectToAllRelays w args (force_pre_auth_flag c) \<noteq> []" by simp
    from Action_loop(2) [OF this] e show False
      by (auto split: prod.splits option.splits if_splits)
  qed
  show "connectToAllRelays w args (force_pre_auth_flag c) = []"
  proof (rule ccontr)
    assume "connectToAllRelays w args (force_pre_auth_flag c) \<noteq> []"
    then have "args = [] \<or> connectToAllRelays w args (force_pre_auth_flag c) \<noteq> []" by simp
    from Action_loop(2) [OF this] e show False
      by (auto split: prod.splits option.splits if_splits)
  qed
qed

theorem no_relays_connected_is_fatal_witness:
  "[''wss://a'', ''wss://b''] \<noteq> [] \<and>
   connectToAllRelays (world_down [''{}'', '''']) [''wss://a'', ''wss://b''] (force_pre_auth_flag no_flags) = [] \<and>
   Action (world_down [''{}'', '''']) no_flags [''wss://a'', ''wss://b'']
     = (os_Exit 3, [Connect [''wss://a'', ''wss://b''] False, Log_failed_to_connect]) \<and>
   filter is_delivery (snd (Action (world_down [''{}'', '''']) no_flags [''wss://a'', ''wss://b''])) = []"
proof -
  have h: "[''wss://a'', ''wss://b''] \<noteq> [] \<and>
    connectToAllRelays (world_down [''{}'', '''']) [''wss://a'', ''wss://b''] (force_pre_auth_flag no_flags) = []"
    by (simp add: world_down_def world_up_def)
  have f: "force_pre_auth_flag no_flags = False" by (simp add: no_flags_def)
  from no_relays_connected_is_fatal [of "[''wss://a'', ''wss://b'']" "world_down [''{}'', '''']" no_flags] h f
  show ?thesis by simp
qed


lemma process_lines_print:
  "snd (process_lines w c [] ctx ls) =
     concat (map (\<lambda>stdinFilter.
        case read_base w stdinFilter of
          None \<Rightarrow> []
        | Some base \<Rightarrow>
            (case build c base of
               Inl err \<Rightarrow> []
             | Inr flt \<Rightarrow> [if bare_flag c then Stdout_filter flt else Stdout_req ''nak'' [flt]]))
        ls)"
proof (induction ls arbitrary: ctx)
  case Nil
  show ?case by simp
next
  case (Cons l ls)
  show ?case
  proof (cases "read_base w l")
    case None
    with Cons [of "lineProcessingError ctx"] show ?thesis by simp
  next
    case (Some base)
    show ?thesis
    proof (cases "build c base")
      case (Inl err)
      then have "build c base' = Inl err" for base' by (simp add: build_Inl)
      with Some Inl show ?thesis by (simp split: option.splits)
    next
      case (Inr flt)
      with Some Cons [of ctx] show ?thesis by (simp add: case_prod_beta emit_def)
    qed
  qed
qed

lemma Action_no_args:
  "snd (Action w c []) =
     snd (process_lines w c [] \<lparr>LINE_PROCESSING_ERROR = False\<rparr> (getStdinLinesOrBlank w))"
  by (simp add: Action_def exitIfLineProcessingError_def split: prod.splits option.splits)

text \<open>
  C9. Without relay addresses the action does nothing but print: one value per piped line
  that yields a filter, in order, the bare filter when the bare flag is set and otherwise
  the envelope with the subscription id nak around it; nothing touches the network.
\<close>

theorem no_relays_prints_filters:
  "snd (Action w c []) =
     concat (map (\<lambda>stdinFilter.
        case read_base w stdinFilter of
          None \<Rightarrow> []
        | Some base \<Rightarrow>
            (case build c base of
               Inl err \<Rightarrow> []
             | Inr flt \<Rightarrow> [if bare_flag c then Stdout_filter flt else Stdout_req ''nak'' [flt]]))
        (getStdinLinesOrBlank w)) \<and>
   filter is_network (snd (Action w c [])) = []"
proof
  show p: "snd (Action w c []) =
     concat (map (\<lambda>stdinFilter.
        case read_base w stdinFilter of
          None \<Rightarrow> []
        | Some base \<Rightarrow>
            (case build c base of
               Inl err \<Rightarrow> []
             | Inr flt \<Rightarrow> [if bare_flag c then Stdout_filter flt else Stdout_req ''nak'' [flt]]))
        (getStdinLinesOrBlank w))"
    by (simp only: Action_no_args process_lines_print)
  show "filter is_network (snd (Action w c [])) = []"
    unfolding p by (auto simp: filter_empty_conv split: option.splits sum.splits if_splits)
qed

theorem no_relays_prints_filters_witness:
  "Action (world_up [''{}'', ''x'', '''']) (no_flags\<lparr>bare_flag := True\<rparr>) []
     = (Exit_line_processing_error,
        [Stdout_filter (Filter_zero\<lparr>Tags := Some Map.empty\<rparr>), Stdout_filter Filter_zero]) \<and>
   Action (world_up [''{}'', '''']) no_flags []
     = (Return_nil,
        [Stdout_req ''nak'' [Filter_zero\<lparr>Tags := Some Map.empty\<rparr>],
         Stdout_req ''nak'' [Filter_zero]]) \<and>
   filter is_network (snd (Action (world_up [''{}'', '''']) no_flags [])) = []"
proof -
  have 1: "Action (world_up [''{}'', ''x'', '''']) (no_flags\<lparr>bare_flag := True\<rparr>) []
     = (Exit_line_processing_error,
        [Stdout_filter (Filter_zero\<lparr>Tags := Some Map.empty\<rparr>), Stdout_filter Filter_zero])"
    by (simp add: action_unfold build_unfold)
  have 2: "Action (world_up [''{}'', '''']) no_flags []
     = (Return_nil,
        [Stdout_req ''nak'' [Filter_zero\<lparr>Tags := Some Map.empty\<rparr>],
         Stdout_req ''nak'' [Filter_zero]])"
    by (simp add: action_unfold build_unfold)
  from no_relays_prints_filters [of "world_up [''{}'', '''']" no_flags] 1 2
  show ?thesis by blast
qed

lemma process_lines_subscribe:
  "Subscribe fn urls' flt \<in> set (snd (process_lines w c urls ctx ls)) \<Longrightarrow> fn = select_fn c"
proof (induction ls arbitrary: ctx)
  case Nil
  then show ?case by simp
next
  case (Cons l ls)
  show ?case
  proof (cases "read_base w l")
    case None
    with Cons.prems Cons.IH [of "lineProcessingError ctx"] show ?thesis by simp
  next
    case (Some base)
    with Cons.prems Cons.IH [of ctx] show ?thesis
      by (cases "build c base")
        (auto simp: case_prod_beta emit_def Let_def split: if_splits)
  qed
qed

text \<open>
  C10. With the paginate flag set the pagination function is selected whatever the stream
  flag says; with neither flag the function that closes at the end of stored events is
  selected; and every subscription of the action uses the selected function.
\<close>

theorem paginate_takes_precedence:
  "(paginate_flag c \<longrightarrow>
      select_fn c = paginateWithPoolAndParams (paginate_interval_flag c)
                      (Uint (paginate_global_limit_flag c))) \<and>
   (\<not> paginate_flag c \<and> \<not> stream_flag c \<longrightarrow> select_fn c = SubManyEose) \<and>
   (\<forall>fn urls flt. Subscribe fn urls flt \<in> set (snd (Action w c args)) \<longrightarrow> fn = select_fn c)"
proof (intro conjI allI impI)
  fix fn urls flt
  assume s: "Subscribe fn urls flt \<in> set (snd (Action w c args))"
  let ?r = "process_lines w c (relays_of w c args) \<lparr>LINE_PROCESSING_ERROR = False\<rparr>
              (getStdinLinesOrBlank w)"
  from s have "Subscribe fn urls flt \<in> set (snd ?r)"
    by (auto simp: Action_def relays_of_def Let_def split: if_splits prod.splits option.splits)
  then show "fn = select_fn c" by (rule process_lines_subscribe)
qed (simp_all add: select_fn_def)

theorem paginate_takes_precedence_witness:
  "paginate_flag (no_flags\<lparr>paginate_flag := True, stream_flag := True\<rparr>) \<and>
   Action (world_up ['''']) (no_flags\<lparr>paginate_flag := True, stream_flag := True\<rparr>) [''wss://r'']
     = (Return_nil,
        [Connect [''wss://r''] False,
         Subscribe (paginateWithPoolAndParams 0 0) [''wss://r''] Filter_zero,
         Close ''wss://r'']) \<and>
   select_fn (no_flags\<lparr>paginate_flag := True, stream_flag := True\<rparr>)
     = paginateWithPoolAndParams 0 0 \<and>
   select_fn no_flags = SubManyEose"
proof -
  let ?c = "no_flags\<lparr>paginate_flag := True, stream_flag := True\<rparr>"
  have a: "Action (world_up ['''']) ?c [''wss://r'']
     = (Return_nil,
        [Connect [''wss://r''] False,
         Subscribe (paginateWithPoolAndParams 0 0) [''wss://r''] Filter_zero,
         Close ''wss://r''])"
    by (simp add: action_unfold build_unfold Let_def)
  have p: "paginate_flag ?c" by simp
  have v: "paginate_interval_flag ?c = 0" "Uint (paginate_global_limit_flag ?c) = 0"
    "\<not> paginate_flag no_flags \<and> \<not> stream_flag no_flags"
    by (simp_all add: no_flags_def Uint_def)
  from paginate_takes_precedence [of ?c "world_up ['''']" "[''wss://r'']"] p v(1,2)
  have 1: "select_fn ?c = paginateWithPoolAndParams 0 0" by simp
  from paginate_takes_precedence [of no_flags "world_up ['''']" "[]"] v(3)
  have 2: "select_fn no_flags = SubManyEose" by blast
  from a p 1 2 show ?thesis by blast
qed

text \<open>
  C6. When neither the auth flag nor the force-pre-auth flag is set, the handler returns
  its error at once: the event is left as it was and neither the secret is gathered nor a
  signer called. The connection then ends in the refused state and the triggering
  request is not sent again.
\<close>

theorem auth_refused_without_opt_in:
  "\<not> auth_flag c \<Longrightarrow> \<not> force_pre_auth_flag c \<Longrightarrow>
     authHandler sg c evt = ((Some AuthNotAuthorized, evt), []) \<and>
     after_challenge (fst (fst (authHandler sg c evt))) = (Refused, 0)"
  by (simp add: authHandler_def after_challenge_def)

theorem auth_refused_without_opt_in_witness:
  "\<not> auth_flag no_flags \<and> \<not> force_pre_auth_flag no_flags \<and>
   authHandler signers_none no_flags (event_at 0) = ((Some AuthNotAuthorized, event_at 0), []) \<and>
   after_challenge (fst (fst (authHandler signers_none no_flags (event_at 0)))) = (Refused, 0)"
proof -
  have 1: "\<not> auth_flag no_flags" and 2: "\<not> force_pre_auth_flag no_flags"
    by (simp_all add: no_flags_def)
  from auth_refused_without_opt_in [OF 1 2, of signers_none "event_at 0"] 1 2
  show ?thesis by blast
qed


section \<open>Properties of pagination\<close>

lemma paginate_rounds_empty:
  "min_timestamp evts = None \<Longrightarrow>
     paginate_rounds flt g st (evts # answers) =
       ([\<lparr>round_until = currentUntil st, round_events = evts, round_next = None\<rparr>], True)"
  by simp

lemma paginate_rounds_stop:
  "min_timestamp evts = Some m \<Longrightarrow>
   stop_after_round flt g (totalReceived st + length evts) (next_until (currentUntil st) m) \<Longrightarrow>
     paginate_rounds flt g st (evts # answers) =
       ([\<lparr>round_until = currentUntil st, round_events = evts,
          round_next = Some (next_until (currentUntil st) m)\<rparr>], True)"
  by (simp add: Let_def)

lemma paginate_rounds_go:
  "min_timestamp evts = Some m \<Longrightarrow>
   \<not> stop_after_round flt g (totalReceived st + length evts) (next_until (currentUntil st) m) \<Longrightarrow>
     paginate_rounds flt g st (evts # answers) =
       (\<lparr>round_until = currentUntil st, round_events = evts,
          round_next = Some (next_until (currentUntil st) m)\<rparr>
        # fst (paginate_rounds flt g
                \<lparr>currentUntil = Some (next_until (currentUntil st) m),
                  totalReceived = totalReceived st + length evts\<rparr> answers),
        snd (paginate_rounds flt g
                \<lparr>currentUntil = Some (next_until (currentUntil st) m),
                  totalReceived = totalReceived st + length evts\<rparr> answers))"
  by (simp add: Let_def case_prod_beta)

lemmas paginate_rounds_eqs =
  paginate_rounds_empty paginate_rounds_stop paginate_rounds_go

lemma paginate_rounds_cases:
  obtains (nil) "answers = []"
  | (empty) evts rest where "answers = evts # rest" "min_timestamp evts = None"
  | (stop) evts rest m where "answers = evts # rest" "min_timestamp evts = Some m"
      "stop_after_round flt g (totalReceived st + length evts) (next_until (currentUntil st) m)"
  | (go) evts rest m where "answers = evts # rest" "min_timestamp evts = Some m"
      "\<not> stop_after_round flt g (totalReceived st + length evts) (next_until (currentUntil st) m)"
  by (cases answers; cases "min_timestamp (hd answers)") auto

lemma paginate_rounds_hd:
  "fst (paginate_rounds flt g st answers) \<noteq> [] \<Longrightarrow>
     round_until (hd (fst (paginate_rounds flt g st answers))) = currentUntil st"
  by (cases rule: paginate_rounds_cases [where answers = answers and flt = flt and g = g and st = st])
    (simp_all add: paginate_rounds_eqs del: paginate_rounds.simps(2))

lemma next_until_le: "next_until (Some u) m \<le> u - 1"
  by (simp add: next_until_def)

lemma paginate_rounds_below:
  "r \<in> set (fst (paginate_rounds flt g st answers)) \<Longrightarrow> currentUntil st = Some u \<Longrightarrow>
     \<exists>u'. round_until r = Some u' \<and> u' \<le> u"
proof (induction answers arbitrary: st u)
  case Nil
  then show ?case by simp
next
  case (Cons evts rest)
  show ?case
  proof (cases rule: paginate_rounds_cases [where answers = "evts # rest" and flt = flt and g = g and st = st])
    case nil
    then show ?thesis by simp
  next
    case (empty evts' rest')
    with Cons.prems show ?thesis by simp
  next
    case (stop evts' rest' m)
    with Cons.prems show ?thesis by (simp add: paginate_rounds_eqs del: paginate_rounds.simps(2))
  next
    case (go evts' rest' m)
    let ?st' = "\<lparr>currentUntil = Some (next_until (currentUntil st) m),
                  totalReceived = totalReceived st + length evts\<rparr>"
    from go Cons.prems(1)
    have "r = \<lparr>round_until = currentUntil st, round_events = evts,
                round_next = Some (next_until (currentUntil st) m)\<rparr>
          \<or> r \<in> set (fst (paginate_rounds flt g ?st' rest))"
      by (simp add: paginate_rounds_eqs del: paginate_rounds.simps(2))
    then show ?thesis
    proof
      assume "r = \<lparr>round_until = currentUntil st, round_events = evts,
                round_next = Some (next_until (currentUntil st) m)\<rparr>"
      with Cons.prems(2) show ?thesis by simp
    next
      assume "r \<in> set (fst (paginate_rounds flt g ?st' rest))"
      from Cons.IH [OF this, of "next_until (currentUntil st) m"]
      obtain u' where "round_until r = Some u'" "u' \<le> next_until (currentUntil st) m"
        by auto
      with Cons.prems(2) next_until_le [of u m] show ?thesis by auto
    qed
  qed
qed


lemma paginate_rounds_chain:
  "successively
     (\<lambda>r r'. \<exists>m. min_timestamp (round_events r) = Some m \<and>
                  round_until r' = Some (next_until (round_until r) m) \<and>
                  (\<forall>s. Since flt = Some s \<longrightarrow> s \<le> next_until (round_until r) m))
     (fst (paginate_rounds flt g st answers))"
proof (induction answers arbitrary: st)
  case Nil
  show ?case by simp
next
  case (Cons evts rest)
  show ?case
  proof (cases rule: paginate_rounds_cases
      [where answers = "evts # rest" and flt = flt and g = g and st = st])
    case nil
    then show ?thesis by simp
  next
    case (empty evts' rest')
    then show ?thesis by simp
  next
    case (stop evts' rest' m)
    then show ?thesis by (simp add: paginate_rounds_eqs del: paginate_rounds.simps(2))
  next
    case (go evts' rest' m)
    let ?st' = "\<lparr>currentUntil = Some (next_until (currentUntil st) m),
                  totalReceived = totalReceived st + length evts\<rparr>"
    from go(3) have since: "\<forall>s. Since flt = Some s \<longrightarrow> s \<le> next_until (currentUntil st) m"
      by (auto simp: stop_after_round_def split: option.splits)
    from paginate_rounds_hd [of flt g ?st' rest]
    have hd: "fst (paginate_rounds flt g ?st' rest) \<noteq> [] \<Longrightarrow>
        round_until (hd (fst (paginate_rounds flt g ?st' rest))) =
          Some (next_until (currentUntil st) m)"
      by simp
    from go since hd Cons.IH [of ?st'] show ?thesis
      by (auto simp: paginate_rounds_eqs successively_Cons simp del: paginate_rounds.simps(2))
  qed
qed

lemma paginate_rounds_next:
  "r \<in> set (fst (paginate_rounds flt g st answers)) \<Longrightarrow>
     round_next r = map_option (next_until (round_until r)) (min_timestamp (round_events r))"
proof (induction answers arbitrary: st)
  case Nil
  then show ?case by simp
next
  case (Cons evts rest)
  show ?case
  proof (cases rule: paginate_rounds_cases
      [where answers = "evts # rest" and flt = flt and g = g and st = st])
    case nil
    then show ?thesis by simp
  next
    case (empty evts' rest')
    with Cons.prems show ?thesis by simp
  next
    case (stop evts' rest' m)
    with Cons.prems show ?thesis
      by (simp add: paginate_rounds_eqs del: paginate_rounds.simps(2))
  next
    case (go evts' rest' m)
    with Cons.prems Cons.IH show ?thesis
      by (auto simp: paginate_rounds_eqs simp del: paginate_rounds.simps(2))
  qed
qed

lemma paginate_rounds_distinct:
  "distinct (map round_until (fst (paginate_rounds flt g st answers)))"
proof (induction answers arbitrary: st)
  case Nil
  show ?case by simp
next
  case (Cons evts rest)
  show ?case
  proof (cases rule: paginate_rounds_cases
      [where answers = "evts # rest" and flt = flt and g = g and st = st])
    case nil
    then show ?thesis by simp
  next
    case (empty evts' rest')
    then show ?thesis by simp
  next
    case (stop evts' rest' m)
    then show ?thesis by (simp add: paginate_rounds_eqs del: paginate_rounds.simps(2))
  next
    case (go evts' rest' m)
    let ?n = "next_until (currentUntil st) m"
    let ?st' = "\<lparr>currentUntil = Some ?n, totalReceived = totalReceived st + length evts\<rparr>"
    have fresh: "currentUntil st \<noteq> round_until r"
      if "r \<in> set (fst (paginate_rounds flt g ?st' rest))" for r
    proof -
      from paginate_rounds_below [OF that, of ?n]
      obtain u' where u': "round_until r = Some u'" "u' \<le> ?n" by auto
      show ?thesis
      proof (cases "currentUntil st")
        case None
        with u' show ?thesis by simp
      next
        case (Some u)
        with u' next_until_le [of u m] show ?thesis by auto
      qed
    qed
    from go Cons.IH [of ?st'] fresh show ?thesis
      by (auto simp: paginate_rounds_eqs simp del: paginate_rounds.simps(2))
  qed
qed

lemma paginate_rounds_last:
  "fst (paginate_rounds flt g st answers) \<noteq> [] \<Longrightarrow>
   round_next (last (fst (paginate_rounds flt g st answers))) = Some n \<Longrightarrow>
   Since flt = Some s \<Longrightarrow> n < s \<Longrightarrow>
     snd (paginate_rounds flt g st answers)"
proof (induction answers arbitrary: st)
  case Nil
  then show ?case by simp
next
  case (Cons evts rest)
  show ?case
  proof (cases rule: paginate_rounds_cases
      [where answers = "evts # rest" and flt = flt and g = g and st = st])
    case nil
    then show ?thesis by simp
  next
    case (empty evts' rest')
    then show ?thesis by simp
  next
    case (stop evts' rest' m)
    then show ?thesis by (simp add: paginate_rounds_eqs del: paginate_rounds.simps(2))
  next
    case (go evts' rest' m)
    let ?n = "next_until (currentUntil st) m"
    let ?st' = "\<lparr>currentUntil = Some ?n, totalReceived = totalReceived st + length evts\<rparr>"
    from go(3) Cons.prems(3) have ok: "s \<le> ?n"
      by (auto simp: stop_after_round_def)
    show ?thesis
    proof (cases "fst (paginate_rounds flt g ?st' rest) = []")
      case True
      with go Cons.prems ok show ?thesis
        by (simp add: paginate_rounds_eqs del: paginate_rounds.simps(2))
    next
      case False
      with go Cons.prems Cons.IH [of ?st'] show ?thesis
        by (simp add: paginate_rounds_eqs del: paginate_rounds.simps(2))
    qed
  qed
qed

lemma example_rounds:
  "paginate (Filter_zero\<lparr>Since := Some 70\<rparr>) 0
     [[event_at 100], [event_at 90, event_at 90], [event_at 80]] =
   ([\<lparr>round_until = None, round_events = [event_at 100], round_next = Some 99\<rparr>,
     \<lparr>round_until = Some 99, round_events = [event_at 90, event_at 90], round_next = Some 89\<rparr>,
     \<lparr>round_until = Some 89, round_events = [event_at 80], round_next = Some 79\<rparr>], False)"
  by (simp add: paginate_def Filter_zero_def event_at_def next_until_def stop_after_round_def Let_def)

lemma example_rounds_stop:
  "paginate (Filter_zero\<lparr>Since := Some 70\<rparr>) 0
     [[event_at 100], [event_at 90, event_at 90], [event_at 80], [event_at 60], [event_at 50]] =
   ([\<lparr>round_until = None, round_events = [event_at 100], round_next = Some 99\<rparr>,
     \<lparr>round_until = Some 99, round_events = [event_at 90, event_at 90], round_next = Some 89\<rparr>,
     \<lparr>round_until = Some 89, round_events = [event_at 80], round_next = Some 79\<rparr>,
     \<lparr>round_until = Some 79, round_events = [event_at 60], round_next = Some 59\<rparr>], True)"
  by (simp add: paginate_def Filter_zero_def event_at_def next_until_def stop_after_round_def Let_def)

text \<open>
  C8. Round 0 uses the filter's own until. After a round with events the next until is the
  minimum creation timestamp of the round minus 1, or the previous until minus 1 when
  that is smaller, and the next round uses it; so until drops by at least 1 from each
  round to the next and no value is used twice. Pagination stops with the round whose
  next until is below since. For events with the timestamps 100, 90, 90, 80, the two at
  90 returned by the same round, and since at 70, the successive values are 99, 89, 79;
  a further round with an event at 60 gives 59, below since, and is the last.
\<close>

theorem pagination_until_progress:
  "paginate flt globalLimit answers = (rounds, stopped) \<Longrightarrow>
     (rounds \<noteq> [] \<longrightarrow> round_until (rounds ! 0) = Until flt) \<and>
     (\<forall>r \<in> set rounds. \<forall>m. min_timestamp (round_events r) = Some m \<longrightarrow>
        round_next r =
          Some (case round_until r of None \<Rightarrow> m - 1 | Some u \<Rightarrow> min (m - 1) (u - 1))) \<and>
     (\<forall>i. Suc i < length rounds \<longrightarrow>
        round_next (rounds ! i) \<noteq> None \<and>
        round_until (rounds ! Suc i) = round_next (rounds ! i)) \<and>
     (\<forall>i u. Suc i < length rounds \<and> round_until (rounds ! i) = Some u \<longrightarrow>
        (\<exists>u'. round_until (rounds ! Suc i) = Some u' \<and> u' \<le> u - 1)) \<and>
     distinct (map round_until rounds) \<and>
     (\<forall>i s n. i < length rounds \<and> Since flt = Some s \<and>
              round_next (rounds ! i) = Some n \<and> n < s \<longrightarrow>
        Suc i = length rounds \<and> stopped) \<and>
     map round_next
       (fst (paginate (Filter_zero\<lparr>Since := Some 70\<rparr>) 0
               [[event_at 100], [event_at 90, event_at 90], [event_at 80]]))
       = [Some 99, Some 89, Some 79] \<and>
     map round_next
       (fst (paginate (Filter_zero\<lparr>Since := Some 70\<rparr>) 0
               [[event_at 100], [event_at 90, event_at 90], [event_at 80],
                [event_at 60], [event_at 50]]))
       = [Some 99, Some 89, Some 79, Some 59] \<and>
     snd (paginate (Filter_zero\<lparr>Since := Some 70\<rparr>) 0
               [[event_at 100], [event_at 90, event_at 90], [event_at 80],
                [event_at 60], [event_at 50]])"
proof -
  assume p: "paginate flt globalLimit answers = (rounds, stopped)"
  let ?st = "\<lparr>currentUntil = Until flt, totalReceived = 0\<rparr>"
  from p have rs: "rounds = fst (paginate_rounds flt globalLimit ?st answers)"
    and fin: "stopped = snd (paginate_rounds flt globalLimit ?st answers)"
    by (simp_all add: paginate_def)
  have first: "rounds \<noteq> [] \<longrightarrow> round_until (rounds ! 0) = Until flt"
    using paginate_rounds_hd [of flt globalLimit ?st answers] rs by (simp add: hd_conv_nth)
  have nxt: "round_next r = map_option (next_until (round_until r)) (min_timestamp (round_events r))"
    if "r \<in> set rounds" for r
    using that rs paginate_rounds_next by simp
  have formula: "\<forall>r \<in> set rounds. \<forall>m. min_timestamp (round_events r) = Some m \<longrightarrow>
        round_next r =
          Some (case round_until r of None \<Rightarrow> m - 1 | Some u \<Rightarrow> min (m - 1) (u - 1))"
    using nxt by (simp add: next_until_def)
  have step: "\<exists>m. min_timestamp (round_events (rounds ! i)) = Some m \<and>
        round_until (rounds ! Suc i) = Some (next_until (round_until (rounds ! i)) m) \<and>
        (\<forall>s. Since flt = Some s \<longrightarrow> s \<le> next_until (round_until (rounds ! i)) m)"
    if "Suc i < length rounds" for i
    using paginate_rounds_chain [of flt globalLimit ?st answers] that rs
    by (simp add: successively_conv_nth)
  have chain: "round_next (rounds ! i) \<noteq> None \<and>
        round_until (rounds ! Suc i) = round_next (rounds ! i)"
    if "Suc i < length rounds" for i
  proof -
    from that have "rounds ! i \<in> set rounds" by simp
    from nxt [OF this] step [OF that] show ?thesis by auto
  qed
  have decr: "\<exists>u'. round_until (rounds ! Suc i) = Some u' \<and> u' \<le> u - 1"
    if "Suc i < length rounds \<and> round_until (rounds ! i) = Some u" for i u
  proof -
    from that step [of i] obtain m where
      "round_until (rounds ! Suc i) = Some (next_until (Some u) m)" by auto
    with next_until_le [of u m] show ?thesis by simp
  qed
  have dist: "distinct (map round_until rounds)"
    using paginate_rounds_distinct rs by simp
  have stop: "Suc i = length rounds \<and> stopped"
    if h: "i < length rounds \<and> Since flt = Some s \<and> round_next (rounds ! i) = Some n \<and> n < s"
    for i s n
  proof -
    have last: "Suc i = length rounds"
    proof (rule ccontr)
      assume "Suc i \<noteq> length rounds"
      with h have lt: "Suc i < length rounds" by simp
      then have "rounds ! i \<in> set rounds" by simp
      from nxt [OF this] step [OF lt] h show False by auto
    qed
    then have ne: "rounds \<noteq> []" by auto
    from last have "length rounds - 1 = i" by arith
    with ne have "last rounds = rounds ! i" by (simp add: last_conv_nth)
    with ne h rs fin paginate_rounds_last [of flt globalLimit ?st answers n s]
    show ?thesis using last by simp
  qed
  have ex: "map round_next
       (fst (paginate (Filter_zero\<lparr>Since := Some 70\<rparr>) 0
               [[event_at 100], [event_at 90, event_at 90], [event_at 80]]))
       = [Some 99, Some 89, Some 79]"
    by (simp add: example_rounds)
  have ex': "map round_next
       (fst (paginate (Filter_zero\<lparr>Since := Some 70\<rparr>) 0
               [[event_at 100], [event_at 90, event_at 90], [event_at 80],
                [event_at 60], [event_at 50]]))
       = [Some 99, Some 89, Some 79, Some 59] \<and>
     snd (paginate (Filter_zero\<lparr>Since := Some 70\<rparr>) 0
               [[event_at 100], [event_at 90, event_at 90], [event_at 80],
                [event_at 60], [event_at 50]])"
    by (simp add: example_rounds_stop)
  from first formula chain decr dist stop ex ex' show ?thesis by blast
qed

theorem pagination_until_progress_witness:
  "paginate (Filter_zero\<lparr>Since := Some 70\<rparr>) 0
     [[event_at 100], [event_at 90, event_at 90], [event_at 80], [event_at 60], [event_at 50]] =
   ([\<lparr>round_until = None, round_events = [event_at 100], round_next = Some 99\<rparr>,
     \<lparr>round_until = Some 99, round_events = [event_at 90, event_at 90], round_next = Some 89\<rparr>,
     \<lparr>round_until = Some 89, round_events = [event_at 80], round_next = Some 79\<rparr>,
     \<lparr>round_until = Some 79, round_events = [event_at 60], round_next = Some 59\<rparr>], True) \<and>
   distinct [None, Some 99, Some 89, Some (79 :: int)] \<and>
   (3 :: nat) < 4 \<and> Since (Filter_zero\<lparr>Since := Some 70\<rparr>) = Some 70 \<and> (59 :: int) < 70 \<and>
   Suc 3 = (4 :: nat)"
proof -
  let ?flt = "Filter_zero\<lparr>Since := Some 70\<rparr>"
  let ?rounds =
    "[\<lparr>round_until = None, round_events = [event_at 100], round_next = Some 99\<rparr>,
      \<lparr>round_until = Some 99, round_events = [event_at 90, event_at 90], round_next = Some 89\<rparr>,
      \<lparr>round_until = Some 89, round_events = [event_at 80], round_next = Some 79\<rparr>,
      \<lparr>round_until = Some 79, round_events = [event_at 60], round_next = Some 59\<rparr>]"
  have e: "paginate ?flt 0
      [[event_at 100], [event_at 90, event_at 90], [event_at 80], [event_at 60], [event_at 50]]
      = (?rounds, True)"
    by (rule example_rounds_stop)
  have h: "3 < length ?rounds \<and> Since ?flt = Some 70 \<and>
           round_next (?rounds ! 3) = Some 59 \<and> (59 :: int) < 70"
    by simp
  from pagination_until_progress [OF e] have d: "distinct (map round_until ?rounds)"
    by blast
  from pagination_until_progress [OF e] h have l: "Suc 3 = length ?rounds"
    by blast
  from e d l h show ?thesis by simp
qed

end
